theory Spec2Isabelle
  imports Main "HOL-Library.AList"
begin

section \<open>Issuer-scoped API-key rate limiting (StellarCert backend)\<close>

text \<open>
  A shallow embedding of \<^verbatim>\<open>RateLimitService\<close> (rate-limit.service.ts),
  \<^verbatim>\<open>RateLimitGuard.canActivate\<close> (rate-limit.guard.ts) and the parts of the
  \<^verbatim>\<open>Issuer\<close> entity they read.

  Conventions of the embedding:
  \<^item> JavaScript numbers that hold millisecond timestamps, counters and limits are
    modelled as \<open>int\<close> (the code only adds, subtracts and compares them; all values
    stay far below \<open>2^53\<close>).
  \<^item> A JavaScript \<^verbatim>\<open>Map\<close> is an association list in insertion order:
    \<^verbatim>\<open>get\<close> is \<open>map_of\<close>, \<^verbatim>\<open>set\<close> is \<open>AList.update\<close> (which
    overwrites in place or appends), iteration is the list order. A bucket object that the
    code mutates in place is written back under its key.
  \<^item> \<^verbatim>\<open>Date.now()\<close> is a parameter of each operation.
  \<^item> The collaborators (the issuer repository, the job queue, the SHA-256 digest, the
    metrics and logging services) are parameters or emitted effects.
\<close>

subsection \<open>Data model\<close>

datatype IssuerTier = FREE | PAID

record IssuerContext =
  ctx_id :: string
  ctx_tier :: IssuerTier

record RateLimitResult =
  allowed :: bool
  limit :: int
  remaining :: int
  resetAt :: int

record UsageBucket =
  windowStart :: int
  count :: int
  tier :: IssuerTier
  notifiedUpgrade :: bool

record CachedIssuer =
  cachedIssuerId :: string
  cachedTier :: IssuerTier
  cacheUntil :: int

text \<open>The columns of the \<^verbatim>\<open>Issuer\<close> entity that the rate limiter reads. The
  tier is optional because \<^verbatim>\<open>resolveIssuer\<close> guards it with \<^verbatim>\<open>|| FREE\<close>;
  \<^verbatim>\<open>apiKeyHash\<close> is a nullable column.\<close>

record Issuer =
  issuer_id :: string
  isActive :: bool
  issuer_tier :: "IssuerTier option"
  apiKeyHash :: "string option"

record Config =
  windowMs :: int
  freeLimit :: int
  paidLimit :: int

type_synonym Usage = "(string \<times> UsageBucket) list"
type_synonym IssuerCache = "(string \<times> CachedIssuer) list"

text \<open>The constructor: \<^verbatim>\<open>Number(config.get(..)) || dflt\<close>. An unset or
  non-numeric setting (\<open>None\<close>) and the number zero are falsy and give the default.
  A numeric setting is taken to be an integer; it may be negative.\<close>

definition numberOr :: "int option \<Rightarrow> int \<Rightarrow> int" where
  "numberOr v dflt = (case v of None \<Rightarrow> dflt | Some n \<Rightarrow> if n = 0 then dflt else n)"

definition mkConfig :: "int option \<Rightarrow> int option \<Rightarrow> int option \<Rightarrow> Config" where
  "mkConfig w f p =
     \<lparr>windowMs = numberOr w 60000, freeLimit = numberOr f 60, paidLimit = numberOr p 600\<rparr>"

subsection \<open>Side effects\<close>

datatype RateLimitJob =
    Exceeded string IssuerTier string int int int
  | UpgradeNotification string string int int

text \<open>What an operation does to the outside world:
  \<open>QueueAdd\<close> is a call of \<^verbatim>\<open>rateLimitQueue.add\<close>; \<open>Rejected\<close> records that the
  promise of the un-awaited async helper was rejected because the add failed;
  \<open>LogLine\<close> and \<open>MetricHttp\<close> are the calls to the logging and metrics services.
  The effects of one helper are listed together: what the helper does after its
  \<^verbatim>\<open>await\<close> (the log line, the rejection) happens later than the position in the
  list suggests.\<close>

datatype Effect =
    QueueAdd RateLimitJob
  | Rejected RateLimitJob
  | LogLine string int int string
  | MetricHttp string string int int

text \<open>The queue collaborator: whether adding a given job succeeds.\<close>

type_synonym Queue = "RateLimitJob \<Rightarrow> bool"

definition enqueueExceeded ::
  "Queue \<Rightarrow> string \<Rightarrow> IssuerTier \<Rightarrow> string \<Rightarrow> int \<Rightarrow> int \<Rightarrow> int \<Rightarrow> Effect list" where
  "enqueueExceeded q issuerId callerTier routeKey timestamp lim cnt =
     (let job = Exceeded issuerId callerTier routeKey timestamp lim cnt
      in QueueAdd job # (if q job then [] else [Rejected job]))"

definition notifyUpgrade ::
  "Queue \<Rightarrow> string \<Rightarrow> string \<Rightarrow> int \<Rightarrow> int \<Rightarrow> Effect list" where
  "notifyUpgrade q issuerId routeKey lim cnt =
     (let job = UpgradeNotification issuerId routeKey lim cnt
      in QueueAdd job #
         (if q job then [LogLine issuerId cnt lim routeKey] else [Rejected job]))"

subsection \<open>The decision engine: \<^verbatim>\<open>consume\<close>\<close>

definition bucketKey :: "string \<Rightarrow> string \<Rightarrow> string" where
  "bucketKey issuerId routeKey = issuerId @ '':'' @ routeKey"

definition tierLimit :: "Config \<Rightarrow> IssuerTier \<Rightarrow> int" where
  "tierLimit cfg t = (if t = PAID then paidLimit cfg else freeLimit cfg)"

text \<open>\<^verbatim>\<open>Math.floor(limit * 0.8)\<close>. For an integer limit (of magnitude below
  \<open>2^50\<close>) the double product rounds to the exact value when the limit is a multiple of
  five and stays strictly between two integers otherwise, so the result is the integer
  floor of \<open>4 * limit / 5\<close>.\<close>

definition upgradeThreshold :: "int \<Rightarrow> int" where
  "upgradeThreshold lim = (lim * 4) div 5"

text \<open>The rollover block (\<^verbatim>\<open>if (now - bucket.windowStart >= this.windowMs)\<close>).\<close>

definition rollover :: "Config \<Rightarrow> int \<Rightarrow> IssuerTier \<Rightarrow> UsageBucket \<Rightarrow> UsageBucket" where
  "rollover cfg now callerTier bucket =
     (if now - windowStart bucket \<ge> windowMs cfg
      then bucket\<lparr>windowStart := now, count := 0, notifiedUpgrade := False, tier := callerTier\<rparr>
      else bucket)"

definition consume ::
  "Config \<Rightarrow> Queue \<Rightarrow> int \<Rightarrow> Usage \<Rightarrow> string \<Rightarrow> IssuerTier \<Rightarrow> string
     \<Rightarrow> RateLimitResult \<times> Usage \<times> Effect list" where
  "consume cfg q now usage issuerId callerTier routeKey =
     (let key = bucketKey issuerId routeKey;
          lim = tierLimit cfg callerTier;
          bucket0 = (case map_of usage key of
                       Some b \<Rightarrow> b
                     | None \<Rightarrow> \<lparr>windowStart = now, count = 0, tier = callerTier,
                                notifiedUpgrade = False\<rparr>);
          bucket1 = rollover cfg now callerTier bucket0
      in if count bucket1 \<ge> lim
         then (\<lparr>allowed = False, limit = lim, remaining = 0,
                 resetAt = windowStart bucket1 + windowMs cfg\<rparr>,
               AList.update key bucket1 usage,
               enqueueExceeded q issuerId callerTier routeKey now lim (count bucket1))
         else
           (let bucket2 = bucket1\<lparr>count := count bucket1 + 1\<rparr>;
                rem = max (lim - count bucket2) 0;
                rst = windowStart bucket2 + windowMs cfg;
                nudge = (callerTier = FREE \<and> \<not> notifiedUpgrade bucket2
                           \<and> count bucket2 \<ge> upgradeThreshold lim);
                bucket3 = (if nudge then bucket2\<lparr>notifiedUpgrade := True\<rparr> else bucket2)
            in (\<lparr>allowed = True, limit = lim, remaining = rem, resetAt = rst\<rparr>,
                AList.update key bucket3 usage,
                (if nudge then notifyUpgrade q issuerId routeKey lim (count bucket2) else [])
                  @ [MetricHttp ''API_KEY'' routeKey 200 0])))"

text \<open>A sequence of \<^verbatim>\<open>consume\<close> calls \<open>(now, issuerId, tier, routeKey)\<close> on one service
  instance, collecting each call's result and effects.\<close>

type_synonym ConsumeCall = "int \<times> string \<times> IssuerTier \<times> string"

fun consumeSeq ::
  "Config \<Rightarrow> Queue \<Rightarrow> Usage \<Rightarrow> ConsumeCall list
     \<Rightarrow> (RateLimitResult \<times> Effect list) list \<times> Usage" where
  "consumeSeq cfg q usage [] = ([], usage)"
| "consumeSeq cfg q usage ((now, issuerId, callerTier, routeKey) # calls) =
     (case consume cfg q now usage issuerId callerTier routeKey of
        (res, usage1, effs) \<Rightarrow>
          (case consumeSeq cfg q usage1 calls of
             (outs, usage2) \<Rightarrow> ((res, effs) # outs, usage2)))"

definition isExceededAdd :: "Effect \<Rightarrow> bool" where
  "isExceededAdd e = (case e of QueueAdd (Exceeded _ _ _ _ _ _) \<Rightarrow> True | _ \<Rightarrow> False)"


text \<open>Two queue collaborators used in the examples: one that accepts every job and one
  that rejects every job.\<close>

definition queueUp :: Queue where
  "queueUp job = True"

definition queueDown :: Queue where
  "queueDown job = False"

definition defaultConfig :: Config where
  "defaultConfig = mkConfig None None None"

definition smallConfig :: Config where
  "smallConfig = mkConfig (Some 60000) (Some 5) (Some 10)"

text \<open>Calls by one issuer on one route, all at FREE tier, at the given times.\<close>

definition freeCalls :: "string \<Rightarrow> string \<Rightarrow> int list \<Rightarrow> ConsumeCall list" where
  "freeCalls iid r ts = map (\<lambda>t. (t, iid, FREE, r)) ts"




subsection \<open>The issuer directory cache: \<^verbatim>\<open>resolveIssuer\<close>\<close>

text \<open>\<^verbatim>\<open>issuerRepository.findOne({ where: { apiKeyHash, isActive: true } })\<close> over
  the rows of the issuers table.\<close>

definition findActiveByHash :: "Issuer list \<Rightarrow> string \<Rightarrow> Issuer option" where
  "findActiveByHash repo h = find (\<lambda>i. apiKeyHash i = Some h \<and> isActive i) repo"

definition cacheTtlMs :: int where
  "cacheTtlMs = 5 * 60000"

text \<open>The part of \<^verbatim>\<open>resolveIssuer\<close> after the cache check. The digest
  \<^verbatim>\<open>crypto.createHash('sha256')\<close> is the parameter \<open>sha256\<close>. The third component of
  the result lists the hashes that were looked up in the repository.\<close>

definition lookupIssuer ::
  "(string \<Rightarrow> string) \<Rightarrow> Issuer list \<Rightarrow> int \<Rightarrow> IssuerCache \<Rightarrow> string
     \<Rightarrow> IssuerContext option \<times> IssuerCache \<times> string list" where
  "lookupIssuer sha256 repo now cache apiKey =
     (let h = sha256 apiKey
      in case findActiveByHash repo h of
           None \<Rightarrow> (None, cache, [h])
         | Some issuer \<Rightarrow>
             (let t = (case issuer_tier issuer of Some t \<Rightarrow> t | None \<Rightarrow> FREE)
              in (Some \<lparr>ctx_id = issuer_id issuer, ctx_tier = t\<rparr>,
                  AList.update apiKey
                    \<lparr>cachedIssuerId = issuer_id issuer, cachedTier = t,
                     cacheUntil = now + cacheTtlMs\<rparr> cache,
                  [h])))"

definition resolveIssuer ::
  "(string \<Rightarrow> string) \<Rightarrow> Issuer list \<Rightarrow> int \<Rightarrow> IssuerCache \<Rightarrow> string
     \<Rightarrow> IssuerContext option \<times> IssuerCache \<times> string list" where
  "resolveIssuer sha256 repo now cache apiKey =
     (case map_of cache apiKey of
        Some cached \<Rightarrow>
          if cacheUntil cached > now
          then (Some \<lparr>ctx_id = cachedIssuerId cached, ctx_tier = cachedTier cached\<rparr>, cache, [])
          else lookupIssuer sha256 repo now cache apiKey
      | None \<Rightarrow> lookupIssuer sha256 repo now cache apiKey)"

text \<open>A sequence of \<^verbatim>\<open>resolveIssuer\<close> calls \<open>(now, repository rows, apiKey)\<close> on one
  service instance; the repository may differ from call to call.\<close>

type_synonym ResolveCall = "int \<times> Issuer list \<times> string"

fun resolveSeq ::
  "(string \<Rightarrow> string) \<Rightarrow> IssuerCache \<Rightarrow> ResolveCall list
     \<Rightarrow> (IssuerContext option \<times> string list) list \<times> IssuerCache" where
  "resolveSeq sha256 cache [] = ([], cache)"
| "resolveSeq sha256 cache ((now, repo, apiKey) # calls) =
     (case resolveIssuer sha256 repo now cache apiKey of
        (res, cache1, looked) \<Rightarrow>
          (case resolveSeq sha256 cache1 calls of
             (outs, cache2) \<Rightarrow> ((res, looked) # outs, cache2)))"

text \<open>An issuer row that is active and whose stored hash is \<open>h\<close>, seen as the identity
  \<^verbatim>\<open>resolveIssuer\<close> derives from it.\<close>

definition identityOf :: "Issuer \<Rightarrow> IssuerContext" where
  "identityOf issuer =
     \<lparr>ctx_id = issuer_id issuer,
      ctx_tier = (case issuer_tier issuer of Some t \<Rightarrow> t | None \<Rightarrow> FREE)\<rparr>"

definition activeMatch :: "Issuer list \<Rightarrow> string \<Rightarrow> IssuerContext \<Rightarrow> bool" where
  "activeMatch repo h ctx =
     list_ex (\<lambda>i. isActive i \<and> apiKeyHash i = Some h \<and> identityOf i = ctx) repo"

text \<open>A stand-in digest for the examples.\<close>

definition exampleDigest :: "string \<Rightarrow> string" where
  "exampleDigest s = ''sha256:'' @ s"

definition exampleIssuer :: "bool \<Rightarrow> Issuer" where
  "exampleIssuer active =
     \<lparr>issuer_id = ''issuer-1'', isActive = active, issuer_tier = Some FREE,
      apiKeyHash = Some (exampleDigest ''key-1'')\<rparr>"

subsection \<open>The request gate: \<^verbatim>\<open>RateLimitGuard.canActivate\<close>\<close>

datatype HeaderValue = HUndefined | HString string | HArray "string list"

text \<open>The parts of the request the guard reads. \<open>route_path\<close> is
  \<^verbatim>\<open>request.route?.path\<close> (\<open>None\<close> when the router attached no route).\<close>

record Request =
  xApiKey :: HeaderValue
  route_path :: "string option"
  originalUrl :: "string option"
  url :: string

definition apiKeyOf :: "Request \<Rightarrow> string option" where
  "apiKeyOf req =
     (case xApiKey req of
        HString s \<Rightarrow> Some s
      | HArray xs \<Rightarrow> (case xs of [] \<Rightarrow> None | s # _ \<Rightarrow> Some s)
      | HUndefined \<Rightarrow> None)"

text \<open>\<^verbatim>\<open>request.route?.path || request.originalUrl || request.url\<close>: an undefined or
  empty string is falsy.\<close>

definition routePathOf :: "Request \<Rightarrow> string" where
  "routePathOf req =
     (let raw = (case originalUrl req of
                   Some u \<Rightarrow> if u \<noteq> [] then u else url req
                 | None \<Rightarrow> url req)
      in case route_path req of
           Some p \<Rightarrow> if p \<noteq> [] then p else raw
         | None \<Rightarrow> raw)"

datatype GuardOutcome = Activated | UnauthorizedException | TooManyRequests int

record GuardRun =
  outcome :: GuardOutcome
  headers :: "(string \<times> int) list"
  usageAfter :: Usage
  cacheAfter :: IssuerCache
  effects :: "Effect list"
  lookups :: "string list"

text \<open>The three times are the three \<^verbatim>\<open>Date.now()\<close> readings, in
  \<^verbatim>\<open>resolveIssuer\<close>, in \<^verbatim>\<open>consume\<close> and for the retry-after header. Header values
  are kept as integers (the code prints them with \<^verbatim>\<open>toString\<close>).\<close>

definition canActivate ::
  "Config \<Rightarrow> (string \<Rightarrow> string) \<Rightarrow> Queue \<Rightarrow> Issuer list \<Rightarrow> int \<times> int \<times> int
     \<Rightarrow> Usage \<Rightarrow> IssuerCache \<Rightarrow> Request \<Rightarrow> GuardRun" where
  "canActivate cfg sha256 q repo clock usage cache req =
     (case clock of (nowResolve, nowConsume, nowRetry) \<Rightarrow>
      (case apiKeyOf req of
         None \<Rightarrow> \<lparr>outcome = Activated, headers = [], usageAfter = usage, cacheAfter = cache,
                   effects = [], lookups = []\<rparr>
       | Some apiKey \<Rightarrow>
           if apiKey = [] then
             \<lparr>outcome = Activated, headers = [], usageAfter = usage, cacheAfter = cache,
              effects = [], lookups = []\<rparr>
           else
             (case resolveIssuer sha256 repo nowResolve cache apiKey of
                (None, cache1, looked) \<Rightarrow>
                  \<lparr>outcome = UnauthorizedException, headers = [], usageAfter = usage,
                   cacheAfter = cache1, effects = [], lookups = looked\<rparr>
              | (Some issuer, cache1, looked) \<Rightarrow>
                  (case consume cfg q nowConsume usage (ctx_id issuer) (ctx_tier issuer)
                          (routePathOf req) of
                     (result, usage1, effs) \<Rightarrow>
                       (let hs = [(''X-RateLimit-Limit'', limit result),
                                  (''X-RateLimit-Remaining'', remaining result),
                                  (''X-RateLimit-Reset'', resetAt result div 1000)]
                        in if \<not> allowed result then
                             (let retryAfterSeconds =
                                    max (- ((- (resetAt result - nowRetry)) div 1000)) 1
                              in \<lparr>outcome = TooManyRequests retryAfterSeconds,
                                  headers = hs @ [(''Retry-After'', retryAfterSeconds)],
                                  usageAfter = usage1, cacheAfter = cache1,
                                  effects = effs, lookups = looked\<rparr>)
                           else
                             \<lparr>outcome = Activated, headers = hs, usageAfter = usage1,
                              cacheAfter = cache1, effects = effs, lookups = looked\<rparr>)))))"

subsection \<open>Introspection: \<^verbatim>\<open>getUsageSummary\<close>\<close>

text \<open>\<^verbatim>\<open>String.prototype.split\<close> with a one-character separator.\<close>

fun splitOn :: "char \<Rightarrow> string \<Rightarrow> string list" where
  "splitOn sep [] = [[]]"
| "splitOn sep (c # cs) =
     (if c = sep then [] # splitOn sep cs
      else (case splitOn sep cs of
              [] \<Rightarrow> [[c]]
            | w # ws \<Rightarrow> (c # w) # ws))"

text \<open>A row of the summary. \<^verbatim>\<open>const [issuerId, route] = key.split(':')\<close> takes the
  first two pieces; a missing piece is \<^verbatim>\<open>undefined\<close> (\<open>None\<close>).\<close>

record UsageRow =
  row_issuerId :: "string option"
  row_route :: "string option"
  row_tier :: IssuerTier
  row_count :: int
  row_limit :: int
  row_resetAt :: int

definition summaryRow :: "Config \<Rightarrow> string \<Rightarrow> UsageBucket \<Rightarrow> UsageRow" where
  "summaryRow cfg key bucket =
     (let parts = splitOn CHR '':'' key
      in \<lparr>row_issuerId = (case parts of [] \<Rightarrow> None | a # _ \<Rightarrow> Some a),
          row_route = (case parts of a # b # _ \<Rightarrow> Some b | _ \<Rightarrow> None),
          row_tier = tier bucket,
          row_count = count bucket,
          row_limit = (if tier bucket = PAID then paidLimit cfg else freeLimit cfg),
          row_resetAt = windowStart bucket + windowMs cfg\<rparr>)"

fun getUsageSummary :: "Config \<Rightarrow> int \<Rightarrow> Usage \<Rightarrow> UsageRow list" where
  "getUsageSummary cfg now [] = []"
| "getUsageSummary cfg now ((key, bucket) # rest) =
     (if now - windowStart bucket \<ge> windowMs cfg
      then getUsageSummary cfg now rest
      else summaryRow cfg key bucket # getUsageSummary cfg now rest)"

text \<open>\<^verbatim>\<open>RateLimitController.getUsage\<close>.\<close>

definition getUsage :: "Config \<Rightarrow> int \<Rightarrow> Usage \<Rightarrow> int \<times> UsageRow list" where
  "getUsage cfg now usage = (windowMs cfg, getUsageSummary cfg now usage)"

subsection \<open>Where a resolved identity comes from\<close>

text \<open>An earlier call \<open>c\<close> that explains why \<open>key\<close> resolves to \<open>ctx\<close> at time \<open>now\<close>
  without a lookup: it was for the same key, the repository then held an active issuer
  with the key's hash and this identity, and it happened less than the TTL ago.\<close>

definition servedFrom ::
  "(string \<Rightarrow> string) \<Rightarrow> ResolveCall \<Rightarrow> int \<Rightarrow> string \<Rightarrow> IssuerContext \<Rightarrow> bool" where
  "servedFrom sha256 c now key ctx =
     (case c of (now0, repo0, key0) \<Rightarrow>
        key0 = key \<and> activeMatch repo0 (sha256 key) ctx \<and> now < now0 + cacheTtlMs)"

text \<open>The cache entry \<open>e\<close> for \<open>key\<close> was written by the call \<open>c\<close>, which found an
  active issuer.\<close>

definition entryFrom ::
  "(string \<Rightarrow> string) \<Rightarrow> ResolveCall \<Rightarrow> string \<Rightarrow> CachedIssuer \<Rightarrow> bool" where
  "entryFrom sha256 c key e =
     (case c of (now0, repo0, key0) \<Rightarrow>
        key0 = key
        \<and> activeMatch repo0 (sha256 key)
             \<lparr>ctx_id = cachedIssuerId e, ctx_tier = cachedTier e\<rparr>
        \<and> cacheUntil e = now0 + cacheTtlMs)"

text \<open>Every cache entry stems from a call in \<open>S\<close> that found an active issuer.\<close>

definition cacheInv ::
  "(string \<Rightarrow> string) \<Rightarrow> ResolveCall set \<Rightarrow> IssuerCache \<Rightarrow> bool" where
  "cacheInv sha256 S cache =
     (\<forall>key e. map_of cache key = Some e \<longrightarrow> (\<exists>c\<in>S. entryFrom sha256 c key e))"

text \<open>The outcome \<open>out\<close> of the call \<open>c\<close> is explained: a resolved identity comes
  from a lookup that found an active issuer, or from one of the \<open>earlier\<close> calls.\<close>

definition originOk ::
  "(string \<Rightarrow> string) \<Rightarrow> ResolveCall list \<Rightarrow> ResolveCall
     \<Rightarrow> IssuerContext option \<times> string list \<Rightarrow> bool" where
  "originOk sha256 earlier c out =
     (case c of (now, repo, key) \<Rightarrow>
        (case fst out of
           None \<Rightarrow> True
         | Some ctx \<Rightarrow>
             (snd out = [sha256 key] \<and> activeMatch repo (sha256 key) ctx)
             \<or> (snd out = [] \<and> list_ex (\<lambda>c0. servedFrom sha256 c0 now key ctx) earlier)))"

text \<open>The identity and the cache entry of the example issuer.\<close>

definition exampleContext :: IssuerContext where
  "exampleContext = \<lparr>ctx_id = ''issuer-1'', ctx_tier = FREE\<rparr>"

definition exampleCache :: IssuerCache where
  "exampleCache =
     [(''key-1'', \<lparr>cachedIssuerId = ''issuer-1'', cachedTier = FREE, cacheUntil = 300000\<rparr>)]"

text \<open>A keyed request for \<^verbatim>\<open>/certificates/abc123\<close>, with the route pattern the
  router attached (if any).\<close>

definition exampleRequest :: "string option \<Rightarrow> Request" where
  "exampleRequest pattern =
     \<lparr>xApiKey = HString ''key-1'', route_path = pattern,
      originalUrl = Some ''/certificates/abc123'', url = ''/certificates/abc123''\<rparr>"

text \<open>The time and the key of a \<^verbatim>\<open>resolveIssuer\<close> call.\<close>

definition callTime :: "ResolveCall \<Rightarrow> int" where
  "callTime c = fst c"

definition callKey :: "ResolveCall \<Rightarrow> string" where
  "callKey c = snd (snd c)"

text \<open>A second active issuer, for another key.\<close>

definition otherIssuer :: Issuer where
  "otherIssuer =
     \<lparr>issuer_id = ''issuer-2'', isActive = True, issuer_tier = Some PAID,
      apiKeyHash = Some (exampleDigest ''key-2'')\<rparr>"

text \<open>Calls that follow the first resolution of the example key: another key, then
  the example key before and at the end of the five minutes.\<close>

definition exampleLaterCalls :: "ResolveCall list" where
  "exampleLaterCalls =
     [(1000, [otherIssuer], ''key-2''),
      (2000, [exampleIssuer False], ''key-1''),
      (300000, [exampleIssuer True, otherIssuer], ''key-1'')]"

section \<open>Properties\<close>

subsection \<open>Auxiliary facts about one window of FREE calls\<close>








lemma smallConfig_simps:
  "windowMs smallConfig = 60000" "freeLimit smallConfig = 5" "paidLimit smallConfig = 10"
  by (simp_all add: smallConfig_def mkConfig_def numberOr_def)

subsection \<open>C1: denial after the free limit is idempotent\<close>



subsection \<open>C2: which tier decides the enforced limit\<close>

text \<open>
  The claim C2 says that within a window the enforced limit is the one of the tier stored
  in the bucket when the window started. The code computes the limit from the tier passed
  to the call. Here a FREE issuer (limit 5) uses up its window, and a sixth call in the
  same window that passes PAID is allowed under the PAID limit 10, while the bucket
  still stores FREE and now counts 6.
\<close>

theorem mid_window_upgrade_applies_at_once:
  "tierLimit smallConfig FREE = 5
   \<and> map (\<lambda>x. (allowed (fst x), limit (fst x)))
     (fst (consumeSeq smallConfig queueUp []
        (freeCalls ''issuer-1'' ''/certificates'' [1000, 1001, 1002, 1003, 1004]
           @ [(1005, ''issuer-1'', PAID, ''/certificates'')])))
     = [(True, 5), (True, 5), (True, 5), (True, 5), (True, 5), (True, 10)]
   \<and> snd (consumeSeq smallConfig queueUp []
        (freeCalls ''issuer-1'' ''/certificates'' [1000, 1001, 1002, 1003, 1004]
           @ [(1005, ''issuer-1'', PAID, ''/certificates'')]))
     = [(''issuer-1:/certificates'',
         \<lparr>windowStart = 1000, count = 6, tier = FREE, notifiedUpgrade = True\<rparr>)]"
  by code_simp

text \<open>
  Claim C2, amended. Every \<^verbatim>\<open>consume\<close> call enforces and reports the limit of the
  tier passed on that call (\<open>paidLimit\<close> for PAID, \<open>freeLimit\<close> otherwise): the call is
  allowed exactly when the bucket's count after the rollover check (zero for a new or
  expired bucket) is below that limit. The tier stored in the bucket is the caller's tier
  when the bucket is created or its window is reset, and is otherwise left as it was.
\<close>

theorem consume_limit_follows_caller_tier:
  assumes "consume cfg q now usage iid t r = (res, usage', effs)"
  shows "limit res = (if t = PAID then paidLimit cfg else freeLimit cfg)
       \<and> (allowed res \<longleftrightarrow>
            (case map_of usage (bucketKey iid r) of
               None \<Rightarrow> 0
             | Some b \<Rightarrow> if windowMs cfg \<le> now - windowStart b then 0 else count b)
              < limit res)
       \<and> (\<exists>b'. map_of usage' (bucketKey iid r) = Some b'
             \<and> tier b' =
                 (case map_of usage (bucketKey iid r) of
                    None \<Rightarrow> t
                  | Some b \<Rightarrow> if windowMs cfg \<le> now - windowStart b then t else tier b))"
  using assms
  by (auto simp: consume_def Let_def tierLimit_def rollover_def AList.update_conv'
      split: if_splits option.splits)

theorem consume_limit_follows_caller_tier_witness:
  "consume smallConfig queueUp 1005
        [(''issuer-1:/certificates'',
          \<lparr>windowStart = 1000, count = 5, tier = FREE, notifiedUpgrade = True\<rparr>)]
        ''issuer-1'' PAID ''/certificates''
     = (\<lparr>allowed = True, limit = 10, remaining = 4, resetAt = 61000\<rparr>,
        [(''issuer-1:/certificates'',
          \<lparr>windowStart = 1000, count = 6, tier = FREE, notifiedUpgrade = True\<rparr>)],
        [MetricHttp ''API_KEY'' ''/certificates'' 200 0])
   \<and> limit \<lparr>allowed = True, limit = 10, remaining = 4, resetAt = 61000\<rparr>
       = paidLimit smallConfig"
proof -
  let ?b = "\<lparr>windowStart = 1000, count = 5, tier = FREE, notifiedUpgrade = True\<rparr>"
  let ?u = "[(''issuer-1:/certificates'', ?b)]"
  have h: "consume smallConfig queueUp 1005 ?u ''issuer-1'' PAID ''/certificates''
     = (\<lparr>allowed = True, limit = 10, remaining = 4, resetAt = 61000\<rparr>,
        [(''issuer-1:/certificates'',
          \<lparr>windowStart = 1000, count = 6, tier = FREE, notifiedUpgrade = True\<rparr>)],
        [MetricHttp ''API_KEY'' ''/certificates'' 200 0])"
    by (simp add: consume_def Let_def bucketKey_def tierLimit_def rollover_def smallConfig_simps)
  show ?thesis
    using h consume_limit_follows_caller_tier [OF h]
    by simp
qed

subsection \<open>C3: the upgrade notification\<close>





subsection \<open>C4: window rollover\<close>

text \<open>
  Claim C4. If \<^verbatim>\<open>consume\<close> is called at a time \<open>now\<close> with
  \<open>now - windowStart \<ge> windowMs\<close> for an existing bucket, the bucket is reset
  (\<open>count = 0\<close>, \<open>notifiedUpgrade = False\<close>, \<open>windowStart = now\<close>, tier from the caller)
  before the limit is checked: the call behaves as a call on the reset bucket. When the
  limit is at least one the call is allowed, leaves \<open>count = 1\<close> and returns
  \<open>resetAt = now + windowMs\<close>, the new window start plus one window length.
\<close>

theorem rollover_resets_before_limit_check:
  assumes "map_of usage (bucketKey iid r) = Some b"
    and "windowMs cfg \<le> now - windowStart b"
    and "1 \<le> tierLimit cfg t"
    and "consume cfg q now usage iid t r = (res, usage', effs)"
  shows "rollover cfg now t b
           = \<lparr>windowStart = now, count = 0, tier = t, notifiedUpgrade = False\<rparr>
       \<and> consume cfg q now (AList.update (bucketKey iid r) (rollover cfg now t b) usage) iid t r
           = (res, usage', effs)
       \<and> allowed res \<and> remaining res = tierLimit cfg t - 1
       \<and> resetAt res = now + windowMs cfg
       \<and> (\<exists>b'. map_of usage' (bucketKey iid r) = Some b'
             \<and> windowStart b' = now \<and> count b' = 1 \<and> tier b' = t)"
  using assms
  by (auto simp: consume_def Let_def rollover_def AList.update_conv' split: if_splits)

theorem rollover_resets_before_limit_check_witness:
  "map_of [(''issuer-1:/certificates'',
            \<lparr>windowStart = 1000, count = 5, tier = FREE, notifiedUpgrade = True\<rparr>)]
      (bucketKey ''issuer-1'' ''/certificates'')
     = Some \<lparr>windowStart = 1000, count = 5, tier = FREE, notifiedUpgrade = True\<rparr>
   \<and> windowMs smallConfig \<le> 61000 - 1000
   \<and> 1 \<le> tierLimit smallConfig PAID
   \<and> consume smallConfig queueUp 61000
        [(''issuer-1:/certificates'',
          \<lparr>windowStart = 1000, count = 5, tier = FREE, notifiedUpgrade = True\<rparr>)]
        ''issuer-1'' PAID ''/certificates''
     = (\<lparr>allowed = True, limit = 10, remaining = 9, resetAt = 121000\<rparr>,
        [(''issuer-1:/certificates'',
          \<lparr>windowStart = 61000, count = 1, tier = PAID, notifiedUpgrade = False\<rparr>)],
        [MetricHttp ''API_KEY'' ''/certificates'' 200 0])
   \<and> rollover smallConfig 61000 PAID
        \<lparr>windowStart = 1000, count = 5, tier = FREE, notifiedUpgrade = True\<rparr>
     = \<lparr>windowStart = 61000, count = 0, tier = PAID, notifiedUpgrade = False\<rparr>"
proof -
  let ?b = "\<lparr>windowStart = 1000, count = 5, tier = FREE, notifiedUpgrade = True\<rparr>"
  let ?u = "[(''issuer-1:/certificates'', ?b)]"
  have h1: "map_of ?u (bucketKey ''issuer-1'' ''/certificates'') = Some ?b"
    by (simp add: bucketKey_def)
  have h2: "windowMs smallConfig \<le> 61000 - windowStart ?b" by (simp add: smallConfig_simps)
  have h3: "1 \<le> tierLimit smallConfig PAID" by (simp add: tierLimit_def smallConfig_simps)
  have h4: "consume smallConfig queueUp 61000 ?u ''issuer-1'' PAID ''/certificates''
     = (\<lparr>allowed = True, limit = 10, remaining = 9, resetAt = 121000\<rparr>,
        [(''issuer-1:/certificates'',
          \<lparr>windowStart = 61000, count = 1, tier = PAID, notifiedUpgrade = False\<rparr>)],
        [MetricHttp ''API_KEY'' ''/certificates'' 200 0])"
    by (simp add: consume_def Let_def bucketKey_def tierLimit_def rollover_def smallConfig_simps)
  show ?thesis
    using h1 h2 h3 h4 rollover_resets_before_limit_check [OF h1 h2 h3 h4]
    by simp
qed

subsection \<open>C8: the decision does not depend on the queue\<close>

text \<open>
  Claim C8. Two runs of \<^verbatim>\<open>consume\<close> from the same bucket state that differ only in
  the behaviour of the queue (whether adding a job succeeds) return the same
  \<open>RateLimitResult\<close> and leave the same bucket state.
\<close>

theorem consume_decision_independent_of_queue:
  "fst (consume cfg q1 now usage iid t r) = fst (consume cfg q2 now usage iid t r)
   \<and> fst (snd (consume cfg q1 now usage iid t r)) = fst (snd (consume cfg q2 now usage iid t r))"
  by (simp add: consume_def Let_def)

theorem consume_decision_independent_of_queue_witness:
  "fst (consume smallConfig queueUp 1005
          [(''issuer-1:/certificates'',
            \<lparr>windowStart = 1000, count = 5, tier = FREE, notifiedUpgrade = True\<rparr>)]
          ''issuer-1'' FREE ''/certificates'')
     = fst (consume smallConfig queueDown 1005
          [(''issuer-1:/certificates'',
            \<lparr>windowStart = 1000, count = 5, tier = FREE, notifiedUpgrade = True\<rparr>)]
          ''issuer-1'' FREE ''/certificates'')
   \<and> fst (snd (consume smallConfig queueUp 1005
          [(''issuer-1:/certificates'',
            \<lparr>windowStart = 1000, count = 5, tier = FREE, notifiedUpgrade = True\<rparr>)]
          ''issuer-1'' FREE ''/certificates''))
     = fst (snd (consume smallConfig queueDown 1005
          [(''issuer-1:/certificates'',
            \<lparr>windowStart = 1000, count = 5, tier = FREE, notifiedUpgrade = True\<rparr>)]
          ''issuer-1'' FREE ''/certificates''))
   \<and> snd (snd (consume smallConfig queueUp 1005
          [(''issuer-1:/certificates'',
            \<lparr>windowStart = 1000, count = 5, tier = FREE, notifiedUpgrade = True\<rparr>)]
          ''issuer-1'' FREE ''/certificates''))
     \<noteq> snd (snd (consume smallConfig queueDown 1005
          [(''issuer-1:/certificates'',
            \<lparr>windowStart = 1000, count = 5, tier = FREE, notifiedUpgrade = True\<rparr>)]
          ''issuer-1'' FREE ''/certificates''))"
proof -
  have d: "snd (snd (consume smallConfig queueUp 1005
          [(''issuer-1:/certificates'',
            \<lparr>windowStart = 1000, count = 5, tier = FREE, notifiedUpgrade = True\<rparr>)]
          ''issuer-1'' FREE ''/certificates''))
     \<noteq> snd (snd (consume smallConfig queueDown 1005
          [(''issuer-1:/certificates'',
            \<lparr>windowStart = 1000, count = 5, tier = FREE, notifiedUpgrade = True\<rparr>)]
          ''issuer-1'' FREE ''/certificates''))"
    by code_simp
  show ?thesis
    using d consume_decision_independent_of_queue
      [of smallConfig queueUp 1005
          "[(''issuer-1:/certificates'',
            \<lparr>windowStart = 1000, count = 5, tier = FREE, notifiedUpgrade = True\<rparr>)]"
          "''issuer-1''" FREE "''/certificates''" queueDown]
    by simp
qed

subsection \<open>C10: every denial dispatches an exceeded job\<close>

lemma consume_exceeded_count:
  "consume cfg q now usage iid t r = (res, usage1, effs)
   \<Longrightarrow> length (filter isExceededAdd effs) = (if allowed res then 0 else 1)"
  by (auto simp: consume_def Let_def enqueueExceeded_def notifyUpgrade_def isExceededAdd_def
      split: if_splits)

text \<open>
  Claim C10. In any sequence of \<^verbatim>\<open>consume\<close> calls, each denied call adds one
  rate-limit-exceeded job to the queue and each allowed call adds none, so the number of
  exceeded jobs dispatched equals the number of denied calls: the dispatch is not
  deduplicated within a window.
\<close>

theorem every_denial_enqueues_exceeded:
  assumes "consumeSeq cfg q usage calls = (outs, usage')"
  shows "map (\<lambda>x. length (filter isExceededAdd (snd x))) outs
           = map (\<lambda>x. if allowed (fst x) then 0 else 1) outs
       \<and> length (filter isExceededAdd (concat (map snd outs)))
           = length (filter (\<lambda>x. \<not> allowed (fst x)) outs)"
  using assms
proof (induction calls arbitrary: usage outs)
  case Nil
  then show ?case by simp
next
  case (Cons c calls)
  obtain now iid t r where c: "c = (now, iid, t, r)" by (cases c) auto
  obtain res usage1 effs where s: "consume cfg q now usage iid t r = (res, usage1, effs)"
    by (cases "consume cfg q now usage iid t r") auto
  obtain outs1 where r: "consumeSeq cfg q usage1 calls = (outs1, usage')"
    and o: "outs = (res, effs) # outs1"
    using Cons.prems c s by (auto split: prod.splits)
  show ?case
    using Cons.IH [OF r] consume_exceeded_count [OF s] o by simp
qed

theorem every_denial_enqueues_exceeded_witness:
  "map (\<lambda>x. length (filter isExceededAdd (snd x)))
     (fst (consumeSeq smallConfig queueUp []
        (freeCalls ''issuer-1'' ''/certificates'' [1000, 1001, 1002, 1003, 1004, 1005, 1006])))
     = [0, 0, 0, 0, 0, 1, 1]
   \<and> length (filter isExceededAdd (concat (map snd
        (fst (consumeSeq smallConfig queueUp []
           (freeCalls ''issuer-1'' ''/certificates''
              [1000, 1001, 1002, 1003, 1004, 1005, 1006])))))) = 2"
proof -
  let ?cs = "consumeSeq smallConfig queueUp []
        (freeCalls ''issuer-1'' ''/certificates'' [1000, 1001, 1002, 1003, 1004, 1005, 1006])"
  have h: "?cs = (fst ?cs, snd ?cs)" by simp
  have e: "map (allowed \<circ> fst) (fst ?cs) = [True, True, True, True, True, False, False]"
    by code_simp
  have m: "map (\<lambda>x. if allowed (fst x) then 0 else (1::nat)) (fst ?cs)
             = map (\<lambda>a. if a then 0 else 1) (map (allowed \<circ> fst) (fst ?cs))"
    by simp
  have f: "length (filter (\<lambda>x. \<not> allowed (fst x)) (fst ?cs))
             = length (filter (\<lambda>a. \<not> a) (map (allowed \<circ> fst) (fst ?cs)))"
    by (simp add: filter_map comp_def)
  show ?thesis
    using every_denial_enqueues_exceeded [OF h]
    unfolding m f e by simp
qed

subsection \<open>Auxiliary facts about \<^verbatim>\<open>resolveIssuer\<close>\<close>

lemma findActiveByHash_Some:
  "findActiveByHash repo h = Some i \<Longrightarrow> activeMatch repo h (identityOf i)"
proof -
  assume "findActiveByHash repo h = Some i"
  then have "i \<in> set repo \<and> apiKeyHash i = Some h \<and> isActive i"
    by (auto simp: findActiveByHash_def find_Some_iff)
  then show ?thesis unfolding activeMatch_def list_ex_iff by blast
qed

lemma lookupIssuer_facts:
  assumes "lookupIssuer sha repo now cache key = (res, cache1, looked)"
  shows "looked = [sha key]"
    and "res = Some ctx \<Longrightarrow> activeMatch repo (sha key) ctx
           \<and> cache1 = AList.update key
               \<lparr>cachedIssuerId = ctx_id ctx, cachedTier = ctx_tier ctx,
                cacheUntil = now + cacheTtlMs\<rparr> cache"
    and "res = None \<Longrightarrow> cache1 = cache"
  using assms findActiveByHash_Some [of repo "sha key"]
  by (auto simp: lookupIssuer_def Let_def identityOf_def split: option.splits)

lemma resolveIssuer_cases:
  assumes r: "resolveIssuer sha repo now cache key = (res, cache1, looked)"
  shows "(\<exists>e. map_of cache key = Some e \<and> now < cacheUntil e
            \<and> res = Some \<lparr>ctx_id = cachedIssuerId e, ctx_tier = cachedTier e\<rparr>
            \<and> cache1 = cache \<and> looked = [])
       \<or> (lookupIssuer sha repo now cache key = (res, cache1, looked) \<and> looked = [sha key])"
proof (cases "map_of cache key")
  case None
  then have l: "lookupIssuer sha repo now cache key = (res, cache1, looked)"
    using r by (simp add: resolveIssuer_def)
  then show ?thesis using lookupIssuer_facts(1) [OF l] by simp
next
  case (Some e)
  show ?thesis
  proof (cases "now < cacheUntil e")
    case True
    then show ?thesis using r Some by (simp add: resolveIssuer_def)
  next
    case False
    then have l: "lookupIssuer sha repo now cache key = (res, cache1, looked)"
      using r Some by (simp add: resolveIssuer_def)
    then show ?thesis using lookupIssuer_facts(1) [OF l] by simp
  qed
qed

lemma cacheInv_mono: "cacheInv sha S cache \<Longrightarrow> S \<subseteq> S' \<Longrightarrow> cacheInv sha S' cache"
  unfolding cacheInv_def by (meson subsetD)

lemma resolve_step_inv:
  assumes inv: "cacheInv sha S cache"
    and r: "resolveIssuer sha repo now cache key = (res, cache1, looked)"
  shows "cacheInv sha (insert (now, repo, key) S) cache1"
proof -
  have mono: "cacheInv sha (insert (now, repo, key) S) cache"
    using inv by (rule cacheInv_mono) blast
  from resolveIssuer_cases [OF r] show ?thesis
  proof
    assume "\<exists>e. map_of cache key = Some e \<and> now < cacheUntil e
            \<and> res = Some \<lparr>ctx_id = cachedIssuerId e, ctx_tier = cachedTier e\<rparr>
            \<and> cache1 = cache \<and> looked = []"
    then have "cache1 = cache" by blast
    then show ?thesis using mono by simp
  next
    assume "lookupIssuer sha repo now cache key = (res, cache1, looked) \<and> looked = [sha key]"
    then have l: "lookupIssuer sha repo now cache key = (res, cache1, looked)" by simp
    show ?thesis
    proof (cases res)
      case None
      then have "cache1 = cache" using lookupIssuer_facts(3) [OF l] by simp
      then show ?thesis using mono by simp
    next
      case (Some ctx)
      note f = lookupIssuer_facts(2) [OF l Some]
      show ?thesis
        unfolding cacheInv_def
      proof (intro allI impI)
        fix k e
        assume m: "map_of cache1 k = Some e"
        show "\<exists>c\<in>insert (now, repo, key) S. entryFrom sha c k e"
        proof (cases "k = key")
          case True
          then have "e = \<lparr>cachedIssuerId = ctx_id ctx, cachedTier = ctx_tier ctx,
                  cacheUntil = now + cacheTtlMs\<rparr>"
            using m f by (simp add: AList.update_conv')
          then have "entryFrom sha (now, repo, key) k e"
            using f True by (cases ctx) (simp add: entryFrom_def)
          then show ?thesis by blast
        next
          case False
          then have "map_of cache k = Some e" using m f by (simp add: AList.update_conv')
          then show ?thesis using mono unfolding cacheInv_def by blast
        qed
      qed
    qed
  qed
qed

lemma resolve_step_origin:
  assumes inv: "cacheInv sha S cache"
    and r: "resolveIssuer sha repo now cache key = (Some ctx, cache1, looked)"
  shows "(looked = [sha key] \<and> activeMatch repo (sha key) ctx)
       \<or> (looked = [] \<and> (\<exists>c\<in>S. servedFrom sha c now key ctx))"
proof -
  from resolveIssuer_cases [OF r] show ?thesis
  proof
    assume "\<exists>e. map_of cache key = Some e \<and> now < cacheUntil e
            \<and> Some ctx = Some \<lparr>ctx_id = cachedIssuerId e, ctx_tier = cachedTier e\<rparr>
            \<and> cache1 = cache \<and> looked = []"
    then obtain e where e: "map_of cache key = Some e" "now < cacheUntil e"
      "ctx = \<lparr>ctx_id = cachedIssuerId e, ctx_tier = cachedTier e\<rparr>" and lk: "looked = []"
      by auto
    from inv e(1) obtain c where c: "c \<in> S" "entryFrom sha c key e"
      unfolding cacheInv_def by blast
    then have "servedFrom sha c now key ctx"
      using e(2,3) by (cases c) (simp add: servedFrom_def entryFrom_def)
    then show ?thesis using lk c(1) by blast
  next
    assume "lookupIssuer sha repo now cache key = (Some ctx, cache1, looked) \<and> looked = [sha key]"
    then have l: "lookupIssuer sha repo now cache key = (Some ctx, cache1, looked)" by simp
    show ?thesis using lookupIssuer_facts(1,2) [OF l] by simp
  qed
qed

lemma resolve_step_originOk:
  assumes inv: "cacheInv sha (set past) cache"
    and r: "resolveIssuer sha repo now cache key = (res, cache1, looked)"
  shows "originOk sha past (now, repo, key) (res, looked)"
proof (cases res)
  case None
  then show ?thesis by (simp add: originOk_def)
next
  case (Some ctx)
  from resolve_step_origin [OF inv r [unfolded Some]]
  show ?thesis using Some by (auto simp: originOk_def list_ex_iff)
qed

lemma resolveSeq_originOk:
  "cacheInv sha (set past) cache
   \<Longrightarrow> resolveSeq sha cache calls = (outs, cache')
   \<Longrightarrow> length outs = length calls
       \<and> (\<forall>n<length calls. originOk sha (past @ take n calls) (calls ! n) (outs ! n))"
proof (induction calls arbitrary: past cache outs)
  case Nil
  then show ?case by simp
next
  case (Cons c calls)
  obtain now repo key where c: "c = (now, repo, key)" by (cases c) auto
  obtain res cache1 looked where s: "resolveIssuer sha repo now cache key = (res, cache1, looked)"
    by (cases "resolveIssuer sha repo now cache key") auto
  obtain outs1 where r: "resolveSeq sha cache1 calls = (outs1, cache')"
    and o: "outs = (res, looked) # outs1"
    using Cons.prems(2) c s by (auto split: prod.splits)
  have inv1: "cacheInv sha (set (past @ [c])) cache1"
    using resolve_step_inv [OF Cons.prems(1) s] c by simp
  note ih = Cons.IH [OF inv1 r]
  have first: "originOk sha past c (res, looked)"
    using resolve_step_originOk [OF Cons.prems(1) s] c by simp
  have nth: "originOk sha (past @ take n (c # calls)) ((c # calls) ! n) (outs ! n)"
    if n: "n < length (c # calls)" for n
  proof (cases n)
    case 0
    then show ?thesis using first o by simp
  next
    case (Suc m)
    then have "m < length calls" using n by simp
    then have "originOk sha ((past @ [c]) @ take m calls) (calls ! m) (outs1 ! m)"
      using ih by blast
    then show ?thesis using Suc o by simp
  qed
  show ?case using ih o nth by simp
qed

lemma list_ex_take_nth:
  "list_ex P (take n xs) \<Longrightarrow> n \<le> length xs \<Longrightarrow> \<exists>m<n. P (xs ! m)"
proof -
  assume "list_ex P (take n xs)" and n: "n \<le> length xs"
  then obtain i where "i < length (take n xs)" "P (take n xs ! i)"
    by (auto simp: list_ex_iff in_set_conv_nth)
  then have "i < n \<and> P (xs ! i)" using n by simp
  then show ?thesis by blast
qed

lemma example_first_resolution:
  "resolveIssuer exampleDigest [exampleIssuer True] 0 [] ''key-1''
     = (Some exampleContext, exampleCache, [exampleDigest ''key-1''])"
  by (simp add: resolveIssuer_def lookupIssuer_def findActiveByHash_def exampleIssuer_def
      exampleContext_def exampleCache_def cacheTtlMs_def Let_def)

lemma resolveIssuer_frame:
  assumes r: "resolveIssuer sha repo now cache k = (res, cache1, looked)"
    and ne: "k \<noteq> key"
  shows "map_of cache1 key = map_of cache key"
proof -
  from resolveIssuer_cases [OF r] show ?thesis
  proof
    assume "\<exists>e. map_of cache k = Some e \<and> now < cacheUntil e
            \<and> res = Some \<lparr>ctx_id = cachedIssuerId e, ctx_tier = cachedTier e\<rparr>
            \<and> cache1 = cache \<and> looked = []"
    then show ?thesis by auto
  next
    assume "lookupIssuer sha repo now cache k = (res, cache1, looked) \<and> looked = [sha k]"
    then have l: "lookupIssuer sha repo now cache k = (res, cache1, looked)" by simp
    show ?thesis
    proof (cases res)
      case None
      then show ?thesis using lookupIssuer_facts(3) [OF l] by simp
    next
      case (Some ctx)
      then show ?thesis using lookupIssuer_facts(2) [OF l Some] ne
        by (simp add: AList.update_conv')
    qed
  qed
qed

lemma resolveIssuer_hit:
  assumes "map_of cache key = Some e" and "now < cacheUntil e"
  shows "resolveIssuer sha repo now cache key
           = (Some \<lparr>ctx_id = cachedIssuerId e, ctx_tier = cachedTier e\<rparr>, cache, [])"
  using assms by (simp add: resolveIssuer_def)

lemma resolveIssuer_expired:
  assumes "map_of cache key = Some e" and "cacheUntil e \<le> now"
  shows "snd (snd (resolveIssuer sha repo now cache key)) = [sha key]"
proof -
  have "resolveIssuer sha repo now cache key = lookupIssuer sha repo now cache key"
    using assms by (simp add: resolveIssuer_def)
  then show ?thesis
    using lookupIssuer_facts(1) [of sha repo now cache key
        "fst (lookupIssuer sha repo now cache key)"
        "fst (snd (lookupIssuer sha repo now cache key))"
        "snd (snd (lookupIssuer sha repo now cache key))"]
    by simp
qed

lemma resolveSeq_entry_serves:
  "map_of cache key = Some e
   \<Longrightarrow> resolveSeq sha cache calls = (outs, cache')
   \<Longrightarrow> n < length calls
   \<Longrightarrow> \<forall>m<n. callKey (calls ! m) = key \<longrightarrow> callTime (calls ! m) < cacheUntil e
   \<Longrightarrow> callKey (calls ! n) = key
   \<Longrightarrow> (callTime (calls ! n) < cacheUntil e \<longrightarrow>
          outs ! n = (Some \<lparr>ctx_id = cachedIssuerId e, ctx_tier = cachedTier e\<rparr>, []))
       \<and> (cacheUntil e \<le> callTime (calls ! n) \<longrightarrow> snd (outs ! n) = [sha key])"
proof (induction calls arbitrary: cache outs n)
  case Nil
  then show ?case by simp
next
  case (Cons c calls)
  obtain now repo k where c: "c = (now, repo, k)" by (cases c) auto
  obtain res cache1 looked where s: "resolveIssuer sha repo now cache k = (res, cache1, looked)"
    by (cases "resolveIssuer sha repo now cache k") auto
  obtain outs1 where r: "resolveSeq sha cache1 calls = (outs1, cache')"
    and o: "outs = (res, looked) # outs1"
    using Cons.prems(2) c s by (auto split: prod.splits)
  show ?case
  proof (cases n)
    case 0
    then have k: "k = key" using Cons.prems(5) c by (simp add: callKey_def)
    have t: "callTime ((c # calls) ! n) = now" using 0 c by (simp add: callTime_def)
    have hit: "now < cacheUntil e \<Longrightarrow>
        (res, looked) = (Some \<lparr>ctx_id = cachedIssuerId e, ctx_tier = cachedTier e\<rparr>, [])"
      using resolveIssuer_hit [OF Cons.prems(1), of now sha repo] s k by simp
    have miss: "cacheUntil e \<le> now \<Longrightarrow> looked = [sha key]"
      using resolveIssuer_expired [OF Cons.prems(1), of now sha repo] s k by simp
    show ?thesis using hit miss o 0 t by simp
  next
    case (Suc m)
    then have m: "m < length calls" using Cons.prems(3) by simp
    have e1: "map_of cache1 key = Some e"
    proof (cases "k = key")
      case True
      have "callKey ((c # calls) ! 0) = key \<longrightarrow> callTime ((c # calls) ! 0) < cacheUntil e"
        using Cons.prems(4) Suc by blast
      then have "now < cacheUntil e" using True c by (simp add: callKey_def callTime_def)
      then have "cache1 = cache"
        using resolveIssuer_hit [OF Cons.prems(1), of now sha repo] s True by simp
      then show ?thesis using Cons.prems(1) by simp
    next
      case False
      then show ?thesis using resolveIssuer_frame [OF s False] Cons.prems(1) by simp
    qed
    have prev: "\<forall>j<m. callKey (calls ! j) = key \<longrightarrow> callTime (calls ! j) < cacheUntil e"
    proof (intro allI impI)
      fix j assume "j < m" and kj: "callKey (calls ! j) = key"
      then have "Suc j < n" using Suc by simp
      then have "callKey ((c # calls) ! Suc j) = key \<longrightarrow>
                 callTime ((c # calls) ! Suc j) < cacheUntil e"
        using Cons.prems(4) by blast
      then show "callTime (calls ! j) < cacheUntil e" using kj by simp
    qed
    have km: "callKey (calls ! m) = key" using Cons.prems(5) Suc by simp
    from Cons.IH [OF e1 r m prev km] show ?thesis using Suc o by simp
  qed
qed

lemma exampleLaterCalls_nth:
  "callKey (exampleLaterCalls ! 0) = ''key-2''" "callTime (exampleLaterCalls ! 0) = 1000"
  "callKey (exampleLaterCalls ! 1) = ''key-1''" "callTime (exampleLaterCalls ! 1) = 2000"
  "callKey (exampleLaterCalls ! 2) = ''key-1''" "callTime (exampleLaterCalls ! 2) = 300000"
  "length exampleLaterCalls = 3"
  by (simp_all add: exampleLaterCalls_def callKey_def callTime_def)

subsection \<open>C5: the directory cache serves an identity for five minutes\<close>

text \<open>
  The claim C5 counts the five minutes from any successful resolution. The code counts
  them from the durable lookup that filled the cache; a cache hit does not extend the
  entry. Here the key is looked up at time 0, resolves from the cache at 200000, and at
  400000 (less than five minutes after that success) the store is looked up again.
\<close>

theorem cache_hit_does_not_extend_ttl:
  "map fst (fst (resolveSeq exampleDigest []
      [(0, [exampleIssuer True], ''key-1''),
       (200000, [exampleIssuer True], ''key-1''),
       (400000, [exampleIssuer True], ''key-1'')]))
     = [Some exampleContext, Some exampleContext, Some exampleContext]
   \<and> map snd (fst (resolveSeq exampleDigest []
      [(0, [exampleIssuer True], ''key-1''),
       (200000, [exampleIssuer True], ''key-1''),
       (400000, [exampleIssuer True], ''key-1'')]))
     = [[''sha256:key-1''], [], [''sha256:key-1'']]
   \<and> (400000 :: int) < 200000 + cacheTtlMs"
  by code_simp

text \<open>
  Claim C5, amended. Let \<^verbatim>\<open>resolveIssuer\<close> succeed for a key at time \<open>t\<close> by a
  durable lookup, and let any sequence of further calls follow on the same service, for
  this key or for others, against any store. Then every call for the key that comes
  strictly before \<open>t + 5 minutes\<close> (while all earlier calls for the key in the sequence
  did too) performs no lookup and returns the cached identity, and the first call for
  the key at or after \<open>t + 5 minutes\<close> performs the lookup again. So a lookup-backed
  resolution followed by a resolution of the same key within five minutes performs the
  lookup exactly once, whatever other keys are resolved in between.
\<close>

theorem lookup_serves_key_until_ttl:
  assumes "resolveIssuer sha repo t cache key = (Some ctx, cache1, looked)"
    and "looked \<noteq> []"
    and "resolveSeq sha cache1 calls = (outs, cache')"
    and "n < length calls"
    and "callKey (calls ! n) = key"
    and "\<forall>m<n. callKey (calls ! m) = key \<longrightarrow> callTime (calls ! m) < t + cacheTtlMs"
  shows "cacheTtlMs = 300000 \<and> looked = [sha key]
       \<and> (callTime (calls ! n) < t + cacheTtlMs \<longrightarrow> outs ! n = (Some ctx, []))
       \<and> (t + cacheTtlMs \<le> callTime (calls ! n) \<longrightarrow> snd (outs ! n) = [sha key])"
proof -
  from resolveIssuer_cases [OF assms(1)] assms(2)
  have l: "lookupIssuer sha repo t cache key = (Some ctx, cache1, looked)"
    and lk: "looked = [sha key]" by auto
  from lookupIssuer_facts(2) [OF l]
  have c1: "cache1 = AList.update key
               \<lparr>cachedIssuerId = ctx_id ctx, cachedTier = ctx_tier ctx,
                cacheUntil = t + cacheTtlMs\<rparr> cache" by simp
  let ?e = "\<lparr>cachedIssuerId = ctx_id ctx, cachedTier = ctx_tier ctx,
             cacheUntil = t + cacheTtlMs\<rparr>"
  have m: "map_of cache1 key = Some ?e"
    unfolding c1 by (simp add: AList.update_conv')
  have p: "\<forall>m<n. callKey (calls ! m) = key \<longrightarrow> callTime (calls ! m) < cacheUntil ?e"
    using assms(6) by simp
  have ctx: "\<lparr>ctx_id = cachedIssuerId ?e, ctx_tier = cachedTier ?e\<rparr> = ctx"
    by (cases ctx) simp
  from resolveSeq_entry_serves [OF m assms(3) assms(4) p assms(5)]
  have "(callTime (calls ! n) < t + cacheTtlMs \<longrightarrow> outs ! n = (Some ctx, []))
       \<and> (t + cacheTtlMs \<le> callTime (calls ! n) \<longrightarrow> snd (outs ! n) = [sha key])"
    unfolding ctx by simp
  then show ?thesis using lk by (simp add: cacheTtlMs_def)
qed

theorem lookup_serves_key_until_ttl_witness:
  "resolveIssuer exampleDigest [exampleIssuer True] 0 [] ''key-1''
     = (Some exampleContext, exampleCache, [exampleDigest ''key-1''])
   \<and> [exampleDigest ''key-1''] \<noteq> []
   \<and> callKey (exampleLaterCalls ! 0) = ''key-2''
   \<and> callKey (exampleLaterCalls ! 1) = ''key-1''
   \<and> callTime (exampleLaterCalls ! 1) = 2000
   \<and> callKey (exampleLaterCalls ! 2) = ''key-1''
   \<and> callTime (exampleLaterCalls ! 2) = 300000
   \<and> snd (fst (resolveSeq exampleDigest exampleCache exampleLaterCalls) ! 0)
       = [exampleDigest ''key-2'']
   \<and> fst (resolveSeq exampleDigest exampleCache exampleLaterCalls) ! 1
       = (Some exampleContext, [])
   \<and> snd (fst (resolveSeq exampleDigest exampleCache exampleLaterCalls) ! 2)
       = [exampleDigest ''key-1'']"
proof -
  let ?rs = "resolveSeq exampleDigest exampleCache exampleLaterCalls"
  have h2: "[exampleDigest ''key-1''] \<noteq> []" by simp
  have h3: "?rs = (fst ?rs, snd ?rs)" by simp
  have n1: "1 < length exampleLaterCalls" and n2: "2 < length exampleLaterCalls"
    by (simp_all add: exampleLaterCalls_def)
  have p1: "\<forall>m<1. callKey (exampleLaterCalls ! m) = ''key-1'' \<longrightarrow>
              callTime (exampleLaterCalls ! m) < 0 + cacheTtlMs"
    by (simp add: exampleLaterCalls_def callKey_def)
  have p2: "\<forall>m<2. callKey (exampleLaterCalls ! m) = ''key-1'' \<longrightarrow>
              callTime (exampleLaterCalls ! m) < 0 + cacheTtlMs"
  proof (intro allI impI)
    fix m :: nat assume "m < 2" and k: "callKey (exampleLaterCalls ! m) = ''key-1''"
    then have "m = 0 \<or> m = 1" by auto
    then show "callTime (exampleLaterCalls ! m) < 0 + cacheTtlMs"
      by (auto simp: exampleLaterCalls_def callTime_def cacheTtlMs_def)
  qed
  have t1: "callTime (exampleLaterCalls ! 1) < 0 + cacheTtlMs"
    by (simp add: exampleLaterCalls_def callTime_def cacheTtlMs_def)
  have t2: "0 + cacheTtlMs \<le> callTime (exampleLaterCalls ! 2)"
    by (simp add: exampleLaterCalls_def callTime_def cacheTtlMs_def)
  note w1 = lookup_serves_key_until_ttl
      [OF example_first_resolution h2 h3 n1 exampleLaterCalls_nth(3) p1]
  note w2 = lookup_serves_key_until_ttl
      [OF example_first_resolution h2 h3 n2 exampleLaterCalls_nth(5) p2]
  have a: "fst ?rs ! 1 = (Some exampleContext, [])"
    by (rule w1 [THEN conjunct2, THEN conjunct2, THEN conjunct1, THEN mp, OF t1])
  have b: "snd (fst ?rs ! 2) = [exampleDigest ''key-1'']"
    by (rule w2 [THEN conjunct2, THEN conjunct2, THEN conjunct2, THEN mp, OF t2])
  have c: "snd (fst ?rs ! 0) = [exampleDigest ''key-2'']"
    unfolding exampleLaterCalls_def by code_simp
  show ?thesis
    using example_first_resolution h2 a b c exampleLaterCalls_nth by (intro conjI)
qed

subsection \<open>C6: only active issuers enter the cache\<close>

text \<open>
  The claim C6 says that whenever \<^verbatim>\<open>resolveIssuer\<close> returns an identity the store
  holds, at that moment, an active issuer with the key's hash. A cache hit does not
  consult the store: an issuer resolved at time 0 and deactivated afterwards still
  resolves at time 1000, while the store holds no active issuer for the key.
\<close>

theorem cached_identity_outlives_deactivation:
  "fst (resolveSeq exampleDigest []
      [(0, [exampleIssuer True], ''key-1''),
       (1000, [exampleIssuer False], ''key-1'')])
     = [(Some exampleContext, [''sha256:key-1'']), (Some exampleContext, [])]
   \<and> filter (\<lambda>i. isActive i \<and> apiKeyHash i = Some (exampleDigest ''key-1''))
        [exampleIssuer False] = []
   \<and> findActiveByHash [exampleIssuer False] (exampleDigest ''key-1'') = None"
  by code_simp

text \<open>
  Claim C6, amended. Starting from the empty cache, in any sequence of
  \<^verbatim>\<open>resolveIssuer\<close> calls (the store may change between calls), a call that returns
  an identity either looked the key's hash up and the store then held an active issuer
  with that hash and identity, or it performed no lookup and an earlier call for the
  same key, less than five minutes before, saw a store that held an active issuer with
  that hash and identity.
\<close>

theorem resolved_identity_has_active_origin:
  assumes "resolveSeq sha [] calls = (outs, cache')"
  shows "\<forall>n<length calls. \<forall>ctx. fst (outs ! n) = Some ctx \<longrightarrow>
           (case calls ! n of (now, repo, key) \<Rightarrow>
              (snd (outs ! n) = [sha key] \<and> activeMatch repo (sha key) ctx)
              \<or> (snd (outs ! n) = []
                  \<and> (\<exists>m<n. case calls ! m of (now0, repo0, key0) \<Rightarrow>
                        key0 = key \<and> activeMatch repo0 (sha key) ctx
                        \<and> now < now0 + cacheTtlMs)))"
proof (intro allI impI)
  fix n ctx
  assume n: "n < length calls" and some: "fst (outs ! n) = Some ctx"
  have "cacheInv sha (set []) []" by (simp add: cacheInv_def)
  from resolveSeq_originOk [OF this assms] n
  have ok: "originOk sha (take n calls) (calls ! n) (outs ! n)" by simp
  obtain now repo key where c: "calls ! n = (now, repo, key)" by (cases "calls ! n") auto
  from ok c some
  have "(snd (outs ! n) = [sha key] \<and> activeMatch repo (sha key) ctx)
      \<or> (snd (outs ! n) = []
          \<and> list_ex (\<lambda>c0. servedFrom sha c0 now key ctx) (take n calls))"
    by (simp add: originOk_def)
  then show "case calls ! n of (now, repo, key) \<Rightarrow>
              (snd (outs ! n) = [sha key] \<and> activeMatch repo (sha key) ctx)
              \<or> (snd (outs ! n) = []
                  \<and> (\<exists>m<n. case calls ! m of (now0, repo0, key0) \<Rightarrow>
                        key0 = key \<and> activeMatch repo0 (sha key) ctx
                        \<and> now < now0 + cacheTtlMs))"
  proof
    assume "snd (outs ! n) = [sha key] \<and> activeMatch repo (sha key) ctx"
    then show ?thesis using c by simp
  next
    assume a: "snd (outs ! n) = []
          \<and> list_ex (\<lambda>c0. servedFrom sha c0 now key ctx) (take n calls)"
    then obtain m where m: "m < n" "servedFrom sha (calls ! m) now key ctx"
      using list_ex_take_nth [of "\<lambda>c0. servedFrom sha c0 now key ctx" n calls] n by auto
    have "case calls ! m of (now0, repo0, key0) \<Rightarrow>
                        key0 = key \<and> activeMatch repo0 (sha key) ctx
                        \<and> now < now0 + cacheTtlMs"
      using m(2) by (simp add: servedFrom_def)
    with m(1) have "\<exists>m<n. case calls ! m of (now0, repo0, key0) \<Rightarrow>
                        key0 = key \<and> activeMatch repo0 (sha key) ctx
                        \<and> now < now0 + cacheTtlMs"
      by (rule_tac x = m in exI) simp
    then show ?thesis using a c by simp
  qed
qed

theorem resolved_identity_has_active_origin_witness:
  "(1 :: nat) < length [(0 :: int, [exampleIssuer True], ''key-1''),
                        (1000, [exampleIssuer False], ''key-1'')]
   \<and> fst (fst (resolveSeq exampleDigest []
        [(0, [exampleIssuer True], ''key-1''),
         (1000, [exampleIssuer False], ''key-1'')]) ! 1) = Some exampleContext
   \<and> snd (fst (resolveSeq exampleDigest []
        [(0, [exampleIssuer True], ''key-1''),
         (1000, [exampleIssuer False], ''key-1'')]) ! 1) = []
   \<and> \<not> activeMatch [exampleIssuer False] (exampleDigest ''key-1'') exampleContext
   \<and> activeMatch [exampleIssuer True] (exampleDigest ''key-1'') exampleContext
   \<and> (1000 :: int) < 0 + cacheTtlMs"
proof -
  let ?calls = "[(0 :: int, [exampleIssuer True], ''key-1''),
                 (1000, [exampleIssuer False], ''key-1'')]"
  let ?rs = "resolveSeq exampleDigest [] ?calls"
  have h: "?rs = (fst ?rs, snd ?rs)" by simp
  have n: "(1 :: nat) < length ?calls" by simp
  have s: "fst (fst ?rs ! 1) = Some exampleContext" by code_simp
  have na: "\<not> activeMatch [exampleIssuer False] (exampleDigest ''key-1'') exampleContext"
    by code_simp
  from resolved_identity_has_active_origin [OF h, rule_format, OF n s] na
  show ?thesis using s by (simp add: cacheTtlMs_def)
qed

subsection \<open>C7: the route component of the bucket key\<close>

text \<open>
  The claim C7 says that the raw request URL is never used as the route key. The guard
  takes \<^verbatim>\<open>request.route?.path || request.originalUrl || request.url\<close>: for a request
  on which the router exposes no route, the bucket is keyed by the raw URL with its
  concrete path parameter.
\<close>

theorem raw_url_used_when_route_missing:
  "map fst (usageAfter (canActivate smallConfig exampleDigest queueUp [exampleIssuer True]
       (0, 0, 0) [] [] (exampleRequest None)))
     = [''issuer-1:/certificates/abc123'']
   \<and> outcome (canActivate smallConfig exampleDigest queueUp [exampleIssuer True]
       (0, 0, 0) [] [] (exampleRequest None)) = Activated"
  by code_simp

lemma consume_touches_one_key:
  "consume cfg q now usage iid t r = (res, usage1, effs)
   \<Longrightarrow> map_of usage1 (bucketKey iid r) \<noteq> None
       \<and> (\<forall>k. k \<noteq> bucketKey iid r \<longrightarrow> map_of usage1 k = map_of usage k)"
  by (auto simp: consume_def Let_def AList.update_conv' split: if_splits)

text \<open>
  Claim C7, amended. For every keyed request whose issuer resolves, the guard calls
  \<^verbatim>\<open>consume\<close> once, on the bucket whose key is the issuer id, a colon and the route
  key, and touches no other bucket. The route key is the matched route pattern
  \<^verbatim>\<open>request.route.path\<close> when the router exposes a non-empty one; otherwise it is
  the raw URL (\<^verbatim>\<open>originalUrl\<close>, or \<^verbatim>\<open>url\<close> when that is missing or empty).
\<close>

theorem bucket_key_uses_route_pattern_or_url:
  assumes "apiKeyOf req = Some apiKey" and "apiKey \<noteq> []"
    and "resolveIssuer sha repo nowResolve cache apiKey = (Some issuer, cache1, looked)"
  shows "usageAfter (canActivate cfg sha q repo (nowResolve, nowConsume, nowRetry) usage cache req)
           = fst (snd (consume cfg q nowConsume usage (ctx_id issuer) (ctx_tier issuer)
                         (routePathOf req)))
       \<and> map_of (usageAfter (canActivate cfg sha q repo (nowResolve, nowConsume, nowRetry)
                     usage cache req))
            (bucketKey (ctx_id issuer) (routePathOf req)) \<noteq> None
       \<and> (\<forall>k. k \<noteq> bucketKey (ctx_id issuer) (routePathOf req) \<longrightarrow>
              map_of (usageAfter (canActivate cfg sha q repo (nowResolve, nowConsume, nowRetry)
                        usage cache req)) k = map_of usage k)
       \<and> (\<forall>p. route_path req = Some p \<and> p \<noteq> [] \<longrightarrow> routePathOf req = p)
       \<and> (route_path req = None \<or> route_path req = Some [] \<longrightarrow>
            routePathOf req =
              (case originalUrl req of
                 Some u \<Rightarrow> if u \<noteq> [] then u else url req
               | None \<Rightarrow> url req))"
proof -
  obtain res usage1 effs where
    c: "consume cfg q nowConsume usage (ctx_id issuer) (ctx_tier issuer) (routePathOf req)
          = (res, usage1, effs)"
    by (cases "consume cfg q nowConsume usage (ctx_id issuer) (ctx_tier issuer)
                 (routePathOf req)") auto
  have u: "usageAfter (canActivate cfg sha q repo (nowResolve, nowConsume, nowRetry)
                         usage cache req) = usage1"
    using assms c by (simp add: canActivate_def Let_def)
  have r1: "\<forall>p. route_path req = Some p \<and> p \<noteq> [] \<longrightarrow> routePathOf req = p"
    by (simp add: routePathOf_def Let_def)
  have r2: "route_path req = None \<or> route_path req = Some [] \<longrightarrow>
            routePathOf req =
              (case originalUrl req of
                 Some u \<Rightarrow> if u \<noteq> [] then u else url req
               | None \<Rightarrow> url req)"
    by (auto simp: routePathOf_def Let_def)
  show ?thesis
    unfolding u using consume_touches_one_key [OF c] c r1 r2 by simp
qed

theorem bucket_key_uses_route_pattern_or_url_witness:
  "apiKeyOf (exampleRequest (Some ''/certificates/:id'')) = Some ''key-1''
   \<and> ''key-1'' \<noteq> []
   \<and> resolveIssuer exampleDigest [exampleIssuer True] 0 [] ''key-1''
       = (Some exampleContext, exampleCache, [exampleDigest ''key-1''])
   \<and> routePathOf (exampleRequest (Some ''/certificates/:id'')) = ''/certificates/:id''
   \<and> map_of (usageAfter (canActivate smallConfig exampleDigest queueUp [exampleIssuer True]
                 (0, 0, 0) [] [] (exampleRequest (Some ''/certificates/:id''))))
         (bucketKey (ctx_id exampleContext) ''/certificates/:id'') \<noteq> None"
proof -
  let ?req = "exampleRequest (Some ''/certificates/:id'')"
  have h1: "apiKeyOf ?req = Some ''key-1''" by (simp add: apiKeyOf_def exampleRequest_def)
  have h2: "''key-1'' \<noteq> []" by simp
  have p: "route_path ?req = Some ''/certificates/:id'' \<and> ''/certificates/:id'' \<noteq> []"
    by (simp add: exampleRequest_def)
  note w = bucket_key_uses_route_pattern_or_url [OF h1 h2 example_first_resolution,
      of smallConfig queueUp 0 0 "[]"]
  have r: "routePathOf ?req = ''/certificates/:id''"
    using w [THEN conjunct2, THEN conjunct2, THEN conjunct2, THEN conjunct1] p by blast
  have m: "map_of (usageAfter (canActivate smallConfig exampleDigest queueUp
                 [exampleIssuer True] (0, 0, 0) [] [] ?req))
         (bucketKey (ctx_id exampleContext) (routePathOf ?req)) \<noteq> None"
    by (rule w [THEN conjunct2, THEN conjunct1])
  show ?thesis using h1 h2 example_first_resolution r m by simp
qed

subsection \<open>C9: the usage summary\<close>

text \<open>The summary has one row per bucket whose window has not expired, in the order of
  the map, and a key without a colon in either part is split back into its parts.\<close>

lemma getUsageSummary_rows:
  "getUsageSummary cfg now usage
     = map (\<lambda>(key, b). summaryRow cfg key b)
         (filter (\<lambda>(key, b). now - windowStart b < windowMs cfg) usage)"
  by (induction usage) auto

lemma splitOn_without_sep: "sep \<notin> set s \<Longrightarrow> splitOn sep s = [s]"
  by (induction s) auto

lemma splitOn_one_sep:
  "sep \<notin> set a \<Longrightarrow> sep \<notin> set b \<Longrightarrow> splitOn sep (a @ sep # b) = [a, b]"
  by (induction a) (auto simp: splitOn_without_sep)

lemma summaryRow_without_colon:
  assumes "CHR '':'' \<notin> set iid" and "CHR '':'' \<notin> set r"
  shows "summaryRow cfg (bucketKey iid r) b
           = \<lparr>row_issuerId = Some iid, row_route = Some r, row_tier = tier b,
              row_count = count b, row_limit = tierLimit cfg (tier b),
              row_resetAt = windowStart b + windowMs cfg\<rparr>"
  using splitOn_one_sep [OF assms]
  by (simp add: summaryRow_def bucketKey_def tierLimit_def Let_def)

text \<open>
  Claim C9 says that each row's \<open>issuerId\<close> and \<open>route\<close> are the issuer id and route key
  under which the bucket was created. \<^verbatim>\<open>getUsageSummary\<close> recovers them with
  \<^verbatim>\<open>key.split(':')\<close> and keeps the first two pieces, so a route key that contains a
  colon is cut at it: the bucket created for the route pattern
  \<^verbatim>\<open>/certificates/:id\<close> is reported with route \<^verbatim>\<open>/certificates/\<close>.
\<close>

theorem usage_summary_truncates_route_with_colon:
  "getUsageSummary smallConfig 1001
     (fst (snd (consume smallConfig queueUp 1000 [] ''issuer-1'' FREE ''/certificates/:id'')))
     = [\<lparr>row_issuerId = Some ''issuer-1'', row_route = Some ''/certificates/'',
         row_tier = FREE, row_count = 1, row_limit = 5, row_resetAt = 61000\<rparr>]
   \<and> fst (snd (consume smallConfig queueUp 1000 [] ''issuer-1'' FREE ''/certificates/:id''))
     = [(''issuer-1:/certificates/:id'',
         \<lparr>windowStart = 1000, count = 1, tier = FREE, notifiedUpgrade = False\<rparr>)]"
  by code_simp

end
